theory Spec2Isabelle
  imports Complex_Main
begin

section \<open>The FM receive chain of \<open>RTL_ingest.ipynb\<close> over exact arithmetic\<close>

text \<open>
  The notebook processes numpy arrays of IEEE doubles. The embedding keeps the
  structure of every stage (slicing, broadcasting, loops, raised exceptions) and
  replaces the double by \<^typ>\<open>real\<close> and the complex double by \<^typ>\<open>complex\<close>:
  rounding, infinities and NaN are outside the model. The demodulator is the one
  stage whose result depends on the sign of a zero (C's \<open>atan2\<close> reads it), so its
  samples are doubles that carry that sign. A numpy array
  is a list; a raised exception is the left summand of the result. The notebook
  has no functions of its own apart from \<open>read_iq\<close>: each stage is named after
  the variable the cell assigns, and takes the variables the cell reads as
  arguments.
\<close>

datatype error = ZeroDivisionError | ValueError

subsection \<open>Python slices and numpy helpers\<close>

text \<open>\<open>xs[:k]\<close>: a negative stop counts from the end, and every stop is clipped
  to the array.\<close>

definition slice_to :: "'a list \<Rightarrow> int \<Rightarrow> 'a list" where
  "slice_to xs k = (if k < 0 then take (nat (int (length xs) + k)) xs else take (nat k) xs)"

text \<open>\<open>xs[k:]\<close> with a non-negative start.\<close>

definition slice_from :: "'a list \<Rightarrow> nat \<Rightarrow> 'a list" where
  "slice_from xs k = drop k xs"

text \<open>\<open>xs[::r]\<close> for a positive step visits the indices 0, r, 2r, ... below the
  length: keep the head, skip the next \<open>r - 1\<close> elements, repeat.\<close>

fun every_nth :: "nat \<Rightarrow> 'a list \<Rightarrow> 'a list" where
  "every_nth r [] = []"
| "every_nth r (x # xs) = x # every_nth r (drop (r - 1) xs)"

text \<open>A negative step walks backwards from the last element.\<close>

definition slice_step :: "'a list \<Rightarrow> int \<Rightarrow> 'a list" where
  "slice_step xs r = (if 0 < r then every_nth (nat r) xs else every_nth (nat (- r)) (rev xs))"

text \<open>The elementwise product \<open>a * b\<close> of two one-dimensional arrays: equal
  lengths multiply pointwise, a one-element array is broadcast, any other pair of
  lengths raises.\<close>

definition np_multiply :: "'a::times list \<Rightarrow> 'a list \<Rightarrow> error + 'a list" where
  "np_multiply a b =
     (if length a = length b then Inr (map2 (*) a b)
      else if length b = 1 then Inr (map (\<lambda>x. x * hd b) a)
      else if length a = 1 then Inr (map (\<lambda>y. hd a * y) b)
      else Inl ValueError)"

definition np_arange :: "nat \<Rightarrow> real list" where
  "np_arange n = map real [0..<n]"

subsection \<open>Raw IQ reader (\<open>read_iq\<close>)\<close>

text \<open>
  \<^verbatim>\<open>
  def read_iq(file, dtype=np.dtype('<f4'), n=-1, header_bytes=0):
      with open(file, 'rb') as data_file:
          data = np.fromfile(data_file, dtype=dtype, count=n, offset=header_bytes)
      return data.astype(np.float64).view(np.complex128)
  \<close>
  The file is its list of bytes. A dtype is the size of one item in bytes and the
  number an item's bytes stand for.
\<close>

record 'b dtype =
  itemsize :: nat
  decode :: "'b list \<Rightarrow> real"

text \<open>C's \<open>fread\<close> of at most \<open>k\<close> items of \<open>elsize\<close> bytes: it stops at the first
  item the remaining bytes cannot fill.\<close>

fun fread :: "nat \<Rightarrow> nat \<Rightarrow> 'b list \<Rightarrow> 'b list list" where
  "fread elsize 0 bs = []"
| "fread elsize (Suc k) bs =
     (if length bs < elsize then [] else take elsize bs # fread elsize k (drop elsize bs))"

text \<open>C's integer division truncates towards zero.\<close>

definition c_div :: "int \<Rightarrow> int \<Rightarrow> int" where
  "c_div a b = (if a < 0 then - ((- a) div b) else a div b)"

text \<open>\<open>np.fromfile\<close> in binary mode: seek \<open>offset\<close> bytes, take the item count from
  the remaining size when \<open>count\<close> is negative, allocate that many items (a negative
  number of them raises), and keep the items \<open>fread\<close> delivered.\<close>

definition np_fromfile :: "'b list \<Rightarrow> 'b dtype \<Rightarrow> int \<Rightarrow> nat \<Rightarrow> error + real list" where
  "np_fromfile file dt count offset =
     (if itemsize dt = 0 then Inl ValueError
      else let numbytes = int (length file) - int offset;
               num = (if count < 0 then c_div numbytes (int (itemsize dt)) else count)
           in if num < 0 then Inl ValueError
              else Inr (map (decode dt) (fread (itemsize dt) (nat num) (drop offset file))))"

text \<open>\<open>astype(np.float64)\<close> keeps every value: the items are numbers already.\<close>

definition astype_float64 :: "real list \<Rightarrow> real list" where
  "astype_float64 data = map (\<lambda>x. x) data"

text \<open>\<open>view(np.complex128)\<close> reinterprets consecutive pairs of doubles as
  (real, imaginary); numpy raises \<open>ValueError\<close> when the doubles do not fill a
  whole number of complex items.\<close>

fun view_complex128 :: "real list \<Rightarrow> error + complex list" where
  "view_complex128 [] = Inr []"
| "view_complex128 [x] = Inl ValueError"
| "view_complex128 (re # im # rest) =
     (case view_complex128 rest of
        Inl e \<Rightarrow> Inl e
      | Inr cs \<Rightarrow> Inr (Complex re im # cs))"

definition read_iq :: "'b list \<Rightarrow> 'b dtype \<Rightarrow> int \<Rightarrow> nat \<Rightarrow> error + complex list" where
  "read_iq file dt n header_bytes =
     (case np_fromfile file dt n header_bytes of
        Inl e \<Rightarrow> Inl e
      | Inr data \<Rightarrow> view_complex128 (astype_float64 data))"

text \<open>A one-byte unsigned dtype, for concrete runs of the reader.\<close>

definition byte_dtype :: "nat dtype" where
  "byte_dtype = \<lparr>itemsize = 1, decode = (\<lambda>bs. real (hd bs))\<rparr>"

subsection \<open>Mixer (cell 17)\<close>

text \<open>
  \<^verbatim>\<open>
  t = np.arange(0,len(samples))/sdr.sample_rate
  mixing_signal = np.exp(1j*2*np.pi*f2*t)
  shifted = samples * mixing_signal
  \<close>
\<close>

definition mixing_signal :: "real \<Rightarrow> real \<Rightarrow> nat \<Rightarrow> complex list" where
  "mixing_signal f2 sample_rate n =
     map (\<lambda>t. exp (\<i> * 2 * complex_of_real pi * complex_of_real f2 * complex_of_real t))
       (map (\<lambda>k. k / sample_rate) (np_arange n))"

definition shifted :: "complex list \<Rightarrow> real \<Rightarrow> real \<Rightarrow> error + complex list" where
  "shifted samples f2 sample_rate =
     np_multiply samples (mixing_signal f2 sample_rate (length samples))"

subsection \<open>Low-pass filter designer (cell 20)\<close>

text \<open>
  \<^verbatim>\<open>
  frac = cutoff/sdr.sample_rate
  N = int(np.ceil(4/.02))
  if N % 2: N += 1
  w = np.blackman(N)
  sinc = np.sinc(2 * frac * (np.arange(N) - (N-1)/2))
  h = sinc * w
  \<close>
  \<open>cutoff\<close> and the sample rate are Python floats, so the first division raises
  for a zero rate. \<open>np.blackman\<close> and \<open>np.sinc\<close> follow numpy's documentation.
\<close>

definition np_blackman :: "nat \<Rightarrow> real list" where
  "np_blackman M =
     (if M < 1 then []
      else if M = 1 then [1]
      else map (\<lambda>n. 0.42 - 0.5 * cos (2 * pi * n / (real M - 1))
                        + 0.08 * cos (4 * pi * n / (real M - 1))) (np_arange M))"

definition np_sinc :: "real \<Rightarrow> real" where
  "np_sinc x = (if x = 0 then 1 else sin (pi * x) / (pi * x))"

definition taps :: nat where
  "taps = (let N = nat \<lceil>4 / 0.02 :: real\<rceil> in if N mod 2 \<noteq> 0 then N + 1 else N)"

text \<open>The kernel \<open>h\<close> of the cell.\<close>

definition lowpass_h :: "real \<Rightarrow> real \<Rightarrow> error + real list" where
  "lowpass_h cutoff sample_rate =
     (if sample_rate = 0 then Inl ZeroDivisionError
      else let frac = cutoff / sample_rate;
               N = taps;
               w = np_blackman N;
               sinc = map (\<lambda>k. np_sinc (2 * frac * (k - (real N - 1) / 2))) (np_arange N)
           in np_multiply sinc w)"

subsection \<open>Convolver (cell 20)\<close>

text \<open>
  \<^verbatim>\<open>filtered = np.convolve(shifted, h)\<close>
  \<open>np.convolve\<close> in its default mode \<open>'full'\<close>: the longer array comes first, an
  empty array raises, and the result slides one array over the other. The sliding
  sum is written as the product of two polynomials given by their coefficients.
\<close>

fun add_lists :: "complex list \<Rightarrow> complex list \<Rightarrow> complex list" where
  "add_lists [] ys = ys"
| "add_lists xs [] = xs"
| "add_lists (x # xs) (y # ys) = (x + y) # add_lists xs ys"

fun convolve_full :: "complex list \<Rightarrow> complex list \<Rightarrow> complex list" where
  "convolve_full [] v = []"
| "convolve_full (x # a) v = add_lists (map ((*) x) v) (0 # convolve_full a v)"

definition np_convolve :: "complex list \<Rightarrow> complex list \<Rightarrow> error + complex list" where
  "np_convolve a v =
     (let (a', v') = (if length v > length a then (v, a) else (a, v))
      in if length a' = 0 then Inl ValueError
         else if length v' = 0 then Inl ValueError
         else Inr (convolve_full a' v'))"

definition filtered :: "complex list \<Rightarrow> real list \<Rightarrow> error + complex list" where
  "filtered sh h = np_convolve sh (map complex_of_real h)"

text \<open>The \<open>n\<close>-th sample of a finite sequence, zero outside it: the terms of the
  convolution sum \<open>\<Sum>m. a[m] * v[n - m]\<close>.\<close>

definition coeff :: "complex list \<Rightarrow> nat \<Rightarrow> complex" where
  "coeff xs n = (if n < length xs then xs ! n else 0)"

subsection \<open>Decimator (cell 23)\<close>

text \<open>
  \<^verbatim>\<open>
  if len(filtered)%r > 0:
      filtered = filtered[:-(len(filtered)%r)]
  downsampled = filtered[::r]
  \<close>
  Python's \<open>%\<close> takes the sign of the divisor, as \<open>mod\<close> on \<^typ>\<open>int\<close> does, and
  raises for a zero divisor.
\<close>

definition truncate_multiple :: "'a list \<Rightarrow> int \<Rightarrow> error + 'a list" where
  "truncate_multiple xs r =
     (if r = 0 then Inl ZeroDivisionError
      else if int (length xs) mod r > 0
        then Inr (slice_to xs (- (int (length xs) mod r)))
      else Inr xs)"

definition decimate :: "'a list \<Rightarrow> int \<Rightarrow> error + 'a list" where
  "decimate xs r =
     (case truncate_multiple xs r of
        Inl e \<Rightarrow> Inl e
      | Inr xs' \<Rightarrow> Inr (slice_step xs' r))"

subsection \<open>Doubles with a sign on zero\<close>

text \<open>
  A double is its exact value together with the sign bit it has when that value
  is zero; for a non-zero value the sign bit is the sign of the value and the flag
  is not read. Arithmetic is exact, and the sign of a zero result follows IEEE 754
  in round-to-nearest: a product has the exclusive or of the two sign bits, a sum
  that is zero is \<open>-0.0\<close> only when both operands have the sign bit set, negation
  flips the sign bit, and \<open>a - b\<close> is \<open>a + (-b)\<close>.
\<close>

datatype double = Double (val: real) (zero_sign: bool)

definition signbit :: "double \<Rightarrow> bool" where
  "signbit d = (if val d = 0 then zero_sign d else val d < 0)"

definition d_neg :: "double \<Rightarrow> double" where
  "d_neg a = Double (- val a) (\<not> signbit a)"

definition d_mult :: "double \<Rightarrow> double \<Rightarrow> double" where
  "d_mult a b = Double (val a * val b) (signbit a \<noteq> signbit b)"

definition d_add :: "double \<Rightarrow> double \<Rightarrow> double" where
  "d_add a b = Double (val a + val b) (signbit a \<and> signbit b)"

definition d_sub :: "double \<Rightarrow> double \<Rightarrow> double" where
  "d_sub a b = d_add a (d_neg b)"

text \<open>A complex double, and numpy's product of two of them:
  \<open>(ar*br - ai*bi, ar*bi + ai*br)\<close>.\<close>

datatype cdouble = CDouble (creal: double) (cimag: double)

instantiation cdouble :: times
begin

definition times_cdouble :: "cdouble \<Rightarrow> cdouble \<Rightarrow> cdouble" where
  "times_cdouble a b =
     CDouble (d_sub (d_mult (creal a) (creal b)) (d_mult (cimag a) (cimag b)))
             (d_add (d_mult (creal a) (cimag b)) (d_mult (cimag a) (creal b)))"

instance ..

end

text \<open>\<open>np.conj\<close> negates the imaginary part, also when it is zero.\<close>

definition np_conj :: "cdouble \<Rightarrow> cdouble" where
  "np_conj z = CDouble (creal z) (d_neg (cimag z))"

text \<open>The complex number a complex double stands for.\<close>

definition to_complex :: "cdouble \<Rightarrow> complex" where
  "to_complex z = Complex (val (creal z)) (val (cimag z))"

text \<open>Python's \<open>complex(a, b)\<close> of two literals: a zero part is \<open>+0.0\<close>.\<close>

definition cplx :: "real \<Rightarrow> real \<Rightarrow> cdouble" where
  "cplx a b = CDouble (Double a False) (Double b False)"

subsection \<open>FM demodulator (cell 33)\<close>

text \<open>
  \<^verbatim>\<open>
  rotated = downsampled[1:] * np.conj(downsampled[:len(downsampled)-1])
  deltas = np.angle(rotated)
  \<close>
  \<open>np.angle(z)\<close> is \<open>arctan2(z.imag, z.real)\<close>, C's \<open>atan2\<close>: for a negative \<open>x\<close> the
  sign bit of \<open>y\<close> chooses between the two half planes, so \<open>atan2(-0.0, x)\<close> is
  \<open>-\<pi>\<close> and \<open>atan2(+0.0, x)\<close> is \<open>\<pi>\<close>; at the origin \<open>atan2(\<plusminus>0.0, +0.0)\<close> is
  \<open>\<plusminus>0.0\<close> and \<open>atan2(\<plusminus>0.0, -0.0)\<close> is \<open>\<plusminus>\<pi>\<close>. The result is given as a real
  number: the sign of a zero angle is dropped, nothing after this cell reads it.
\<close>

definition arctan2 :: "double \<Rightarrow> double \<Rightarrow> real" where
  "arctan2 y x =
     (if 0 < val x then arctan (val y / val x)
      else if val x < 0 then
        (if signbit y then arctan (val y / val x) - pi else arctan (val y / val x) + pi)
      else if 0 < val y then pi / 2
      else if val y < 0 then - (pi / 2)
      else if signbit x then (if signbit y then - pi else pi)
      else 0)"

definition angle :: "cdouble \<Rightarrow> real" where
  "angle z = arctan2 (cimag z) (creal z)"

definition rotated :: "cdouble list \<Rightarrow> error + cdouble list" where
  "rotated downsampled =
     np_multiply (slice_from downsampled 1)
       (map np_conj (slice_to downsampled (int (length downsampled) - 1)))"

definition deltas :: "cdouble list \<Rightarrow> error + real list" where
  "deltas downsampled =
     (case rotated downsampled of Inl e \<Rightarrow> Inl e | Inr rot \<Rightarrow> Inr (map angle rot))"

subsection \<open>Naive phase differences (cell 29) and their correction (cell 40)\<close>



text \<open>
  \<^verbatim>\<open>
  adjusted_diffs = np.zeros(len(diffs))
  for i, angle in np.ndenumerate(diffs):
      if angle > np.pi:
          adjusted_diffs[i] = angle - 2*np.pi
      elif angle < -np.pi:
          adjusted_diffs[i] = angle + 2*np.pi
      else:
          adjusted_diffs[i] = angle
  \<close>
  The loop writes one cell of the zero array per step.
\<close>

definition adjust :: "real \<Rightarrow> real" where
  "adjust a = (if a > pi then a - 2 * pi else if a < - pi then a + 2 * pi else a)"

fun adjust_loop :: "nat \<Rightarrow> real list \<Rightarrow> real list \<Rightarrow> real list" where
  "adjust_loop i [] adjusted = adjusted"
| "adjust_loop i (a # rest) adjusted = adjust_loop (Suc i) rest (adjusted[i := adjust a])"

definition adjusted_diffs :: "real list \<Rightarrow> real list" where
  "adjusted_diffs ds = adjust_loop 0 ds (replicate (length ds) 0)"

section \<open>Raw IQ reader: proofs\<close>

lemma view_complex128_odd: "odd (length xs) \<Longrightarrow> view_complex128 xs = Inl ValueError"
  by (induction xs rule: view_complex128.induct) simp_all

lemma view_complex128_even:
  "even (length xs) \<Longrightarrow>
   view_complex128 xs = Inr (map (\<lambda>i. Complex (xs ! (2 * i)) (xs ! (2 * i + 1))) [0..<length xs div 2])"
proof (induction xs rule: view_complex128.induct)
  case 1
  then show ?case by simp
next
  case (2 x)
  then show ?case by simp
next
  case (3 re im rest)
  then have IH: "view_complex128 rest
      = Inr (map (\<lambda>i. Complex (rest ! (2 * i)) (rest ! (2 * i + 1))) [0..<length rest div 2])"
    by simp
  have "map (\<lambda>i. Complex ((re # im # rest) ! (2 * i)) ((re # im # rest) ! (2 * i + 1)))
          [0..<Suc (length rest div 2)]
      = Complex re im # map (\<lambda>i. Complex (rest ! (2 * i)) (rest ! (2 * i + 1))) [0..<length rest div 2]"
  proof (rule nth_equalityI)
    fix i assume "i < length (map (\<lambda>i. Complex ((re # im # rest) ! (2 * i))
        ((re # im # rest) ! (2 * i + 1))) [0..<Suc (length rest div 2)])"
    then have i: "i < Suc (length rest div 2)" by simp
    show "map (\<lambda>i. Complex ((re # im # rest) ! (2 * i)) ((re # im # rest) ! (2 * i + 1)))
          [0..<Suc (length rest div 2)] ! i
      = (Complex re im # map (\<lambda>i. Complex (rest ! (2 * i)) (rest ! (2 * i + 1)))
          [0..<length rest div 2]) ! i"
    proof (cases i)
      case 0
      then show ?thesis by (simp add: nth_map_upt[of 0 "Suc (length rest div 2)" 0] del: upt_Suc)
    next
      case (Suc j)
      with i have j: "j < length rest div 2" by simp
      have "map (\<lambda>i. Complex ((re # im # rest) ! (2 * i)) ((re # im # rest) ! (2 * i + 1)))
          [0..<Suc (length rest div 2)] ! Suc j
          = Complex ((re # im # rest) ! (2 * Suc j)) ((re # im # rest) ! (2 * Suc j + 1))"
        using j nth_map_upt[of "Suc j" "Suc (length rest div 2)" 0] by (simp del: upt_Suc)
      then show ?thesis using Suc j by simp
    qed
  qed simp
  with IH show ?case by simp
qed

lemma length_fread:
  "0 < elsize \<Longrightarrow> length (fread elsize k bs) = min k (length bs div elsize)"
proof (induction elsize k bs rule: fread.induct)
  case (1 elsize bs)
  then show ?case by simp
next
  case (2 elsize k bs)
  show ?case
  proof (cases "length bs < elsize")
    case True
    then show ?thesis by simp
  next
    case False
    then have "length bs div elsize = Suc ((length bs - elsize) div elsize)"
      using 2(2) by (simp add: le_div_geq)
    with 2 False show ?thesis by simp
  qed
qed

lemma nth_fread:
  "0 < elsize \<Longrightarrow> j < length (fread elsize k bs) \<Longrightarrow>
   fread elsize k bs ! j = take elsize (drop (j * elsize) bs)"
proof (induction elsize k bs arbitrary: j rule: fread.induct)
  case (1 elsize bs)
  then show ?case by simp
next
  case (2 elsize k bs)
  show ?case
  proof (cases "length bs < elsize")
    case True
    with 2 show ?thesis by simp
  next
    case False
    show ?thesis
    proof (cases j)
      case 0
      with False show ?thesis by simp
    next
      case (Suc i)
      with 2 False show ?thesis by (simp add: add.commute)
    qed
  qed
qed

lemma np_fromfile_data:
  fixes "file" :: "'b list" and dt :: "'b dtype" and n :: int and header_bytes :: nat
  assumes "0 < itemsize dt" and "header_bytes \<le> length file"
  defines "avail \<equiv> (length file - header_bytes) div itemsize dt"
  defines "k \<equiv> (if n < 0 then avail else min (nat n) avail)"
  shows "\<exists>data. np_fromfile file dt n header_bytes = Inr data \<and> length data = k
     \<and> (\<forall>j < k. data ! j
            = decode dt (take (itemsize dt) (drop (header_bytes + j * itemsize dt) file)))"
proof -
  define num where "num = (if n < 0 then int avail else n)"
  let ?items = "fread (itemsize dt) (nat num) (drop header_bytes file)"
  have nb: "int (length file) - int header_bytes = int (length file - header_bytes)"
    using assms(2) by simp
  have cd: "c_div (int (length file) - int header_bytes) (int (itemsize dt)) = int avail"
    unfolding nb by (simp add: c_div_def avail_def zdiv_int)
  have num0: "\<not> num < 0" by (simp add: num_def)
  have ff: "np_fromfile file dt n header_bytes = Inr (map (decode dt) ?items)"
    using assms(1) num0 unfolding np_fromfile_def Let_def cd num_def by simp
  have len: "length ?items = k"
    using length_fread[OF assms(1), of "nat num" "drop header_bytes file"]
    by (simp add: k_def num_def avail_def)
  have "map (decode dt) ?items ! j
      = decode dt (take (itemsize dt) (drop (header_bytes + j * itemsize dt) file))"
    if "j < k" for j
    using that len nth_fread[OF assms(1), of j "nat num" "drop header_bytes file"]
    by (simp add: add.commute)
  with ff len show ?thesis by simp
qed

text \<open>
  C9. When the file holds at least the header and the dtype has a positive item
  size, the reader obtains \<open>k\<close> scalars: all the whole items after the header, or
  at most \<open>n\<close> of them for a count limit \<open>n \<ge> 0\<close>. For an odd \<open>k\<close> the reader
  fails (numpy's \<open>ValueError\<close> from the complex view), for an even \<open>k\<close> it returns
  \<open>k / 2\<close> complex samples, the \<open>i\<close>-th made of the scalars \<open>2i\<close> (real part) and
  \<open>2i + 1\<close> (imaginary part).
\<close>

theorem read_iq_pairs:
  fixes "file" :: "'b list" and dt :: "'b dtype" and n :: int and header_bytes :: nat
  assumes "0 < itemsize dt" and "header_bytes \<le> length file"
  defines "avail \<equiv> (length file - header_bytes) div itemsize dt"
  defines "k \<equiv> (if n < 0 then avail else min (nat n) avail)"
  defines "scalar \<equiv> \<lambda>j. decode dt (take (itemsize dt) (drop (header_bytes + j * itemsize dt) file))"
  shows "(odd k \<longrightarrow> read_iq file dt n header_bytes = Inl ValueError)
       \<and> (even k \<longrightarrow> (\<exists>out. read_iq file dt n header_bytes = Inr out \<and> length out = k div 2
              \<and> (\<forall>i < k div 2. out ! i = Complex (scalar (2 * i)) (scalar (2 * i + 1)))))"
proof -
  obtain data where d: "np_fromfile file dt n header_bytes = Inr data" "length data = k"
    "\<forall>j < k. data ! j = scalar j"
    using np_fromfile_data[OF assms(1,2), of n] unfolding k_def avail_def scalar_def by blast
  have r: "read_iq file dt n header_bytes = view_complex128 data"
    using d(1) by (simp add: read_iq_def astype_float64_def)
  have "read_iq file dt n header_bytes = Inl ValueError" if "odd k"
    using that r d(2) view_complex128_odd[of data] by simp
  moreover have "\<exists>out. read_iq file dt n header_bytes = Inr out \<and> length out = k div 2
              \<and> (\<forall>i < k div 2. out ! i = Complex (scalar (2 * i)) (scalar (2 * i + 1)))"
    if e: "even k"
  proof -
    let ?out = "map (\<lambda>i. Complex (data ! (2 * i)) (data ! (2 * i + 1))) [0..<length data div 2]"
    have "read_iq file dt n header_bytes = Inr ?out"
      using e r d(2) view_complex128_even[of data] by simp
    moreover have "length ?out = k div 2" using d(2) by simp
    moreover have "?out ! i = Complex (scalar (2 * i)) (scalar (2 * i + 1))" if "i < k div 2" for i
    proof -
      have "2 * i < k" "2 * i + 1 < k" using that e by auto
      then show ?thesis using d(2,3) that by simp
    qed
    ultimately show ?thesis by blast
  qed
  ultimately show ?thesis by blast
qed

theorem read_iq_pairs_witness:
  "0 < itemsize byte_dtype \<and> (1::nat) \<le> length [9, 2, 3, 4, 5 :: nat]
   \<and> read_iq [9, 2, 3, 4, 5] byte_dtype (- 1) 1 = Inr [Complex 2 3, Complex 4 5]
   \<and> read_iq [9, 2, 3, 4, 5] byte_dtype 3 1 = Inl ValueError"
proof -
  have h: "0 < itemsize byte_dtype" "(1::nat) \<le> length [9, 2, 3, 4, 5 :: nat]"
    by (simp_all add: byte_dtype_def)
  have a: "read_iq [9, 2, 3, 4, 5] byte_dtype 3 1 = Inl ValueError"
    using read_iq_pairs[OF h, of 3] by (simp add: byte_dtype_def)
  obtain out where o: "read_iq [9, 2, 3, 4, 5] byte_dtype (- 1) 1 = Inr out" "length out = 2"
    "out ! 0 = Complex 2 3" "out ! 1 = Complex 4 5"
    using read_iq_pairs[OF h, of "- 1"] by (auto simp: byte_dtype_def)
  have "out = [Complex 2 3, Complex 4 5]"
    by (rule nth_equalityI) (use o in \<open>auto simp: less_Suc_eq numeral_2_eq_2\<close>)
  with o(1) a h show ?thesis by simp
qed

section \<open>Mixer: proofs\<close>

lemma shifted_eq:
  "shifted samples f fs =
     Inr (map (\<lambda>i. samples ! i * exp (\<i> * 2 * complex_of_real pi * complex_of_real f
            * complex_of_real (real i / fs))) [0..<length samples])"
proof -
  have "map2 (*) samples (mixing_signal f fs (length samples))
      = map (\<lambda>i. samples ! i * exp (\<i> * 2 * complex_of_real pi * complex_of_real f
            * complex_of_real (real i / fs))) [0..<length samples]"
    by (rule nth_equalityI) (simp_all add: mixing_signal_def np_arange_def)
  then show ?thesis
    by (simp add: shifted_def np_multiply_def mixing_signal_def np_arange_def)
qed

text \<open>
  C4. For a positive sample rate, mixing keeps the length, multiplies sample \<open>i\<close>
  by \<open>exp(j 2 \<pi> f i / sample_rate)\<close>, and mixing the result by \<open>- f\<close> gives the
  original sequence back (over exact complex arithmetic).
\<close>

theorem shifted_invertible:
  assumes "0 < sample_rate"
  shows "\<exists>sh. shifted samples f sample_rate = Inr sh
     \<and> length sh = length samples
     \<and> (\<forall>i < length samples.
          sh ! i = samples ! i * exp (\<i> * 2 * complex_of_real pi * complex_of_real f
                                     * complex_of_real (real i / sample_rate)))
     \<and> shifted sh (- f) sample_rate = Inr samples"
proof -
  let ?e = "\<lambda>g i. exp (\<i> * 2 * complex_of_real pi * complex_of_real g
                        * complex_of_real (real i / sample_rate))"
  let ?sh = "map (\<lambda>i. samples ! i * ?e f i) [0..<length samples]"
  have 1: "shifted samples f sample_rate = Inr ?sh" by (rule shifted_eq)
  have inv: "?e f i * ?e (- f) i = 1" for i
    by (simp add: exp_add[symmetric])
  have undo: "?sh ! i * ?e (- f) i = samples ! i" if "i < length samples" for i
  proof -
    have "?sh ! i = samples ! i * ?e f i" using that by (simp only: nth_map_upt add_0 minus_nat.diff_0)
    then have "?sh ! i * ?e (- f) i = samples ! i * (?e f i * ?e (- f) i)"
      by (simp only: mult.assoc)
    then show ?thesis by (simp only: inv mult_1_right)
  qed
  have "map (\<lambda>i. ?sh ! i * ?e (- f) i) [0..<length ?sh] = samples"
  proof (rule nth_equalityI)
    show "length (map (\<lambda>i. ?sh ! i * ?e (- f) i) [0..<length ?sh]) = length samples" by simp
    fix i assume "i < length (map (\<lambda>i. ?sh ! i * ?e (- f) i) [0..<length ?sh])"
    then have i: "i < length samples" by simp
    then have "map (\<lambda>i. ?sh ! i * ?e (- f) i) [0..<length ?sh] ! i = ?sh ! i * ?e (- f) i"
      by (simp only: nth_map_upt length_map length_upt add_0 minus_nat.diff_0)
    then show "map (\<lambda>i. ?sh ! i * ?e (- f) i) [0..<length ?sh] ! i = samples ! i"
      using undo[OF i] by (simp only:)
  qed
  then have 2: "shifted ?sh (- f) sample_rate = Inr samples"
    using shifted_eq[of ?sh "- f" sample_rate] by simp
  from 1 2 show ?thesis by simp
qed

theorem shifted_invertible_witness:
  "(0::real) < 4
   \<and> shifted [1, 1] 1 4 = Inr [1, \<i>]
   \<and> shifted [1, \<i>] (- 1) 4 = Inr [1, 1]"
proof -
  have h: "(0::real) < 4" by simp
  obtain sh where s: "shifted [1, 1] 1 4 = Inr sh" "length sh = 2"
    "sh ! 0 = exp (\<i> * 2 * complex_of_real pi * complex_of_real 1 * complex_of_real (real 0 / 4))"
    "sh ! 1 = exp (\<i> * 2 * complex_of_real pi * complex_of_real 1 * complex_of_real (real 1 / 4))"
    "shifted sh (- 1) 4 = Inr [1, 1]"
    using shifted_invertible[OF h, of "[1, 1]" 1] by auto
  have "exp (\<i> * 2 * complex_of_real pi * complex_of_real 1 * complex_of_real (real 1 / 4))
      = cis (pi / 2)"
    by (simp add: cis_conv_exp mult.commute)
  then have "sh ! 1 = \<i>" using s(4) by simp
  moreover have "sh ! 0 = 1" using s(3) by simp
  ultimately have "sh = [1, \<i>]"
    using s(2) by (cases sh; cases "tl sh") auto
  with s h show ?thesis by simp
qed

section \<open>Low-pass filter designer: proofs\<close>

lemma taps_eq: "taps = 200"
  by (simp add: taps_def)

lemma length_np_blackman: "length (np_blackman M) = M"
  by (simp add: np_blackman_def np_arange_def)

lemma lowpass_h_eq:
  assumes "sample_rate \<noteq> 0"
  shows "lowpass_h cutoff sample_rate =
     Inr (map (\<lambda>n. np_sinc (2 * (cutoff / sample_rate) * (real n - 199 / 2)) * np_blackman 200 ! n)
            [0..<200])"
proof -
  let ?s = "map (\<lambda>k. np_sinc (2 * (cutoff / sample_rate) * (k - (real 200 - 1) / 2))) (np_arange 200)"
  have "map2 (*) ?s (np_blackman 200)
      = map (\<lambda>n. np_sinc (2 * (cutoff / sample_rate) * (real n - 199 / 2)) * np_blackman 200 ! n)
            [0..<200]"
    by (rule nth_equalityI) (simp_all add: length_np_blackman np_arange_def)
  then show ?thesis
    using assms by (simp add: lowpass_h_def taps_eq np_multiply_def length_np_blackman np_arange_def Let_def)
qed

text \<open>
  C8, as the code has it. The designer has no check of the cutoff: for every
  cutoff, also one at or below zero or at or above half the sample rate, and every
  non-zero sample rate it returns a kernel of 200 taps, tap \<open>n\<close> being
  \<open>sinc(2 frac (n - 199/2))\<close> times the Blackman window.
\<close>

theorem lowpass_h_no_cutoff_check:
  assumes "sample_rate \<noteq> 0"
  shows "\<exists>k. lowpass_h cutoff sample_rate = Inr k \<and> length k = 200
     \<and> (\<forall>n < 200. k ! n = np_sinc (2 * (cutoff / sample_rate) * (real n - 199 / 2))
                            * np_blackman 200 ! n)"
  using lowpass_h_eq[OF assms, of cutoff] by simp

theorem lowpass_h_no_cutoff_check_witness:
  "(2048000::real) \<noteq> 0
   \<and> isl (lowpass_h (- 5) 2048000) = False
   \<and> isl (lowpass_h 1024000 2048000) = False"
proof -
  have h: "(2048000::real) \<noteq> 0" by simp
  obtain k1 k2 where "lowpass_h (- 5) 2048000 = Inr k1" "lowpass_h 1024000 2048000 = Inr k2"
    using lowpass_h_no_cutoff_check[OF h, of "- 5"] lowpass_h_no_cutoff_check[OF h, of 1024000]
    by blast
  with h show ?thesis by simp
qed

text \<open>As the specification words C8 it fails: a zero cutoff gives the bare window instead of an
  error, and a cutoff of the whole sample rate gives a kernel as well.\<close>

theorem lowpass_h_no_cutoff_check_counterexample:
  "lowpass_h 0 2048000 = Inr (np_blackman 200)
   \<and> isl (lowpass_h 2048000 2048000) = False"
proof -
  have "map (\<lambda>n. np_sinc (2 * (0 / 2048000) * (real n - 199 / 2)) * np_blackman 200 ! n) [0..<200]
      = np_blackman 200"
    by (rule nth_equalityI) (simp_all add: length_np_blackman np_sinc_def)
  then show ?thesis using lowpass_h_eq[of 2048000 0] lowpass_h_eq[of 2048000 2048000] by simp
qed

section \<open>Convolver: proofs\<close>

lemma length_add_lists: "length (add_lists xs ys) = max (length xs) (length ys)"
  by (induction xs ys rule: add_lists.induct) simp_all

lemma coeff_Cons: "coeff (x # xs) n = (case n of 0 \<Rightarrow> x | Suc k \<Rightarrow> coeff xs k)"
  by (cases n) (simp_all add: coeff_def)

lemma coeff_Nil: "coeff [] n = 0"
  by (simp add: coeff_def)

lemma coeff_add_lists: "coeff (add_lists xs ys) n = coeff xs n + coeff ys n"
proof (induction xs ys arbitrary: n rule: add_lists.induct)
  case (1 ys)
  then show ?case by (simp add: coeff_Nil)
next
  case (2 x xs)
  then show ?case by (simp add: coeff_Nil)
next
  case (3 x xs y ys)
  then show ?case by (cases n) (simp_all add: coeff_Cons)
qed

lemma coeff_map_mult: "coeff (map ((*) x) v) n = x * coeff v n"
  by (simp add: coeff_def)

lemma length_convolve_full:
  "a \<noteq> [] \<Longrightarrow> v \<noteq> [] \<Longrightarrow> length (convolve_full a v) = length a + length v - 1"
proof (induction a)
  case Nil
  then show ?case by simp
next
  case (Cons x a)
  show ?case
  proof (cases a)
    case Nil
    with Cons.prems show ?thesis
      by (cases v) (simp_all add: length_add_lists)
  next
    case (Cons y b)
    then have "length (convolve_full a v) = length a + length v - 1"
      using Cons.IH Cons.prems by simp
    with Cons Cons.prems show ?thesis
      by (simp add: length_add_lists)
  qed
qed

lemma coeff_convolve_full:
  "coeff (convolve_full a v) n = (\<Sum>m\<le>n. coeff a m * coeff v (n - m))"
proof (induction a arbitrary: n)
  case Nil
  then show ?case by (simp add: coeff_Nil)
next
  case (Cons x a)
  show ?case
  proof (cases n)
    case 0
    then show ?thesis by (simp add: coeff_add_lists coeff_map_mult coeff_Cons)
  next
    case (Suc k)
    have "(\<Sum>m\<le>Suc k. coeff (x # a) m * coeff v (Suc k - m))
        = x * coeff v (Suc k) + (\<Sum>m\<le>k. coeff a m * coeff v (k - m))"
      by (simp add: sum.atMost_Suc_shift coeff_Cons del: sum.atMost_Suc)
    then show ?thesis
      using Suc Cons.IH[of k] by (simp add: coeff_add_lists coeff_map_mult coeff_Cons)
  qed
qed

lemma cauchy_commute:
  "(\<Sum>m\<le>n. coeff a m * coeff v (n - m)) = (\<Sum>m\<le>n. coeff v m * coeff a (n - m))"
proof -
  have "(\<Sum>m\<le>n. coeff a m * coeff v (n - m)) = (\<Sum>m\<le>n. coeff a (n - m) * coeff v (n - (n - m)))"
    by (rule sum.reindex_bij_witness[where i="\<lambda>m. n - m" and j="\<lambda>m. n - m"]) auto
  also have "\<dots> = (\<Sum>m\<le>n. coeff v m * coeff a (n - m))"
    by (rule sum.cong) (simp_all add: mult.commute)
  finally show ?thesis .
qed

text \<open>
  C7. For a non-empty input and a non-empty kernel the convolver returns
  \<open>len(input) + len(kernel) - 1\<close> samples, the \<open>n\<close>-th being the full convolution
  sum \<open>\<Sum>m\<le>n. input[m] * kernel[n - m]\<close> (terms outside either sequence are
  zero): nothing is cut from either end.
\<close>

theorem filtered_full_convolution:
  assumes "sh \<noteq> []" and "h \<noteq> []"
  shows "\<exists>out. filtered sh h = Inr out
     \<and> length out = length sh + length h - 1
     \<and> (\<forall>n < length sh + length h - 1.
          out ! n = (\<Sum>m\<le>n. coeff sh m * coeff (map complex_of_real h) (n - m)))"
proof -
  let ?v = "map complex_of_real h"
  have v: "?v \<noteq> []" using assms(2) by simp
  show ?thesis
  proof (cases "length ?v > length sh")
    case True
    then have f: "filtered sh h = Inr (convolve_full ?v sh)"
      using assms by (simp add: filtered_def np_convolve_def)
    have l: "length (convolve_full ?v sh) = length sh + length h - 1"
      using length_convolve_full[OF v assms(1)] by (simp add: add.commute)
    have "convolve_full ?v sh ! n = (\<Sum>m\<le>n. coeff sh m * coeff ?v (n - m))"
      if "n < length sh + length h - 1" for n
      using that l coeff_convolve_full[where a="?v" and v=sh and n=n] cauchy_commute[where a="?v" and v=sh and n=n]
      by (simp add: coeff_def)
    with f l show ?thesis by blast
  next
    case False
    then have f: "filtered sh h = Inr (convolve_full sh ?v)"
      using assms by (simp add: filtered_def np_convolve_def)
    have l: "length (convolve_full sh ?v) = length sh + length h - 1"
      using length_convolve_full[OF assms(1) v] by simp
    have "convolve_full sh ?v ! n = (\<Sum>m\<le>n. coeff sh m * coeff ?v (n - m))"
      if "n < length sh + length h - 1" for n
      using that l coeff_convolve_full[where a=sh and v="?v" and n=n] by (simp add: coeff_def)
    with f l show ?thesis by blast
  qed
qed

theorem filtered_full_convolution_witness:
  "[1, 2, 3 :: complex] \<noteq> [] \<and> [1, 1 :: real] \<noteq> []
   \<and> filtered [1, 2, 3] [1, 1] = Inr [1, 3, 5, 3]"
proof -
  have f: "filtered [1, 2, 3] [1, 1] = Inr [1, 3, 5, 3]"
    by (simp add: filtered_def np_convolve_def)
  obtain out where "filtered [1, 2, 3] [1, 1] = Inr out" "length out = 3 + 2 - 1"
    using filtered_full_convolution[of "[1, 2, 3]" "[1, 1]"] by auto
  with f show ?thesis by simp
qed

section \<open>Decimator: proofs\<close>

lemma ceil_div_step:
  fixes r n :: nat
  assumes "0 < r"
  shows "(n - (r - 1) + r - 1) div r + 1 = (n + 1 + r - 1) div r"
proof (cases "r - 1 \<le> n")
  case True
  then have "n + 1 + r - 1 = (n - (r - 1) + r - 1) + r" using assms by simp
  then show ?thesis using assms by (metis div_add_self2 less_numeral_extra(3))
next
  case False
  then have "n + 1 + r - 1 < 2 * r" "r \<le> n + 1 + r - 1" "n - (r - 1) + r - 1 < r"
    using assms by simp_all
  then have "(n + 1 + r - 1) div r = 1" "(n - (r - 1) + r - 1) div r = 0"
    by (simp_all add: div_nat_eqI)
  then show ?thesis by simp
qed

lemma length_every_nth:
  "0 < r \<Longrightarrow> length (every_nth r xs) = (length xs + r - 1) div r"
proof (induction r xs rule: every_nth.induct)
  case (1 r)
  then show ?case by simp
next
  case (2 r x xs)
  then show ?case using ceil_div_step[of r "length xs"] by simp
qed

lemma nth_every_nth:
  "0 < r \<Longrightarrow> i < length (every_nth r xs) \<Longrightarrow> every_nth r xs ! i = xs ! (i * r)"
proof (induction r xs arbitrary: i rule: every_nth.induct)
  case (1 r)
  then show ?case by simp
next
  case (2 r x xs)
  show ?case
  proof (cases i)
    case 0
    then show ?thesis by simp
  next
    case (Suc j)
    with 2 have j: "j < length (every_nth r (drop (r - 1) xs))" by simp
    then have "j < (length xs - (r - 1) + r - 1) div r"
      using length_every_nth[OF 2(2), of "drop (r - 1) xs"] by simp
    then have "Suc j \<le> (length xs - (r - 1) + r - 1) div r" by simp
    then have "Suc j * r \<le> length xs - (r - 1) + r - 1"
      using less_eq_div_iff_mult_less_eq[OF 2(2)] by blast
    then have le: "r - 1 + j * r \<le> length xs" by simp
    have "every_nth r (x # xs) ! i = every_nth r (drop (r - 1) xs) ! j"
      using Suc by simp
    also have "\<dots> = drop (r - 1) xs ! (j * r)" using 2 j by simp
    also have "\<dots> = xs ! (r - 1 + j * r)" using le by simp
    also have "\<dots> = (x # xs) ! (i * r)" using Suc 2(2) by (simp add: nth_Cons')
    finally show ?thesis .
  qed
qed

lemma every_nth_one: "every_nth (Suc 0) xs = xs"
  by (induction xs) simp_all

lemma truncate_multiple_pos:
  assumes "1 \<le> r"
  shows "truncate_multiple xs r = Inr (take (length xs - length xs mod nat r) xs)"
proof -
  have m: "int (length xs) mod r = int (length xs mod nat r)"
    using assms by (simp add: zmod_int)
  show ?thesis
  proof (cases "length xs mod nat r = 0")
    case True
    with m assms show ?thesis by (simp add: truncate_multiple_def)
  next
    case False
    have "length xs mod nat r \<le> length xs" by (rule mod_less_eq_dividend)
    then have "nat (int (length xs) - int (length xs mod nat r)) = length xs - length xs mod nat r"
      by simp
    with False m assms show ?thesis
      by (simp add: truncate_multiple_def slice_to_def)
  qed
qed

text \<open>
  C3. For a factor \<open>r \<ge> 1\<close> the truncation keeps the first \<open>L - L mod r\<close> samples
  (so exactly the trailing \<open>L mod r\<close> are discarded), the decimator returns
  \<open>floor(L / r)\<close> samples, the \<open>i\<close>-th being \<open>input[i * r]\<close>, and for \<open>r = 1\<close> it
  returns its input.
\<close>

theorem decimate_select:
  assumes "1 \<le> r"
  shows "truncate_multiple xs r = Inr (take (length xs - length xs mod nat r) xs)
       \<and> length xs - length (take (length xs - length xs mod nat r) xs) = length xs mod nat r
       \<and> (\<exists>out. decimate xs r = Inr out
              \<and> length out = length xs div nat r
              \<and> (\<forall>i < length xs div nat r. out ! i = xs ! (i * nat r)))
       \<and> (r = 1 \<longrightarrow> decimate xs r = Inr xs)"
proof -
  define n where "n = nat r"
  define tr where "tr = take (length xs - length xs mod n) xs"
  have n: "0 < n" "r = int n" using assms by (simp_all add: n_def)
  have tm: "truncate_multiple xs r = Inr tr"
    using truncate_multiple_pos[OF assms, of xs] by (simp add: tr_def n_def)
  have ltr: "length tr = n * (length xs div n)"
    by (simp add: tr_def minus_mod_eq_mult_div)
  have dec: "decimate xs r = Inr (every_nth n tr)"
    using tm n by (simp add: decimate_def slice_step_def)
  have "(n * (length xs div n) + n - 1) div n = length xs div n"
  proof (rule div_nat_eqI)
    show "n * (length xs div n) \<le> n * (length xs div n) + n - 1"
      using n by simp
    show "n * (length xs div n) + n - 1 < n * Suc (length xs div n)"
      using n by simp
  qed
  then have len: "length (every_nth n tr) = length xs div n"
    using length_every_nth[OF n(1), of tr] ltr by simp
  have nth: "every_nth n tr ! i = xs ! (i * n)" if "i < length xs div n" for i
  proof -
    have "Suc i \<le> length xs div n" using that by simp
    then have "Suc i * n \<le> length xs div n * n" by (rule mult_le_mono1)
    then have "Suc i * n \<le> length tr"
      using ltr by (simp add: mult.commute)
    then have "i * n < length xs - length xs mod n"
      using n by (simp add: tr_def)
    then have "tr ! (i * n) = xs ! (i * n)" by (simp add: tr_def)
    then show ?thesis using nth_every_nth[OF n(1), of i tr] that len by simp
  qed
  have one: "decimate xs r = Inr xs" if "r = 1"
    using that dec by (simp add: n_def tr_def every_nth_one)
  have disc: "length xs - length tr = length xs mod n"
    by (simp add: tr_def)
  show ?thesis
    using tm disc dec len nth one unfolding tr_def n_def by blast
qed

theorem decimate_select_witness:
  "(1::int) \<le> 3
   \<and> truncate_multiple [10, 11, 12, 13, 14, 15, 16 :: nat] 3 = Inr [10, 11, 12, 13, 14, 15]
   \<and> decimate [10, 11, 12, 13, 14, 15, 16 :: nat] 3 = Inr [10, 13]"
proof -
  have h: "(1::int) \<le> 3" by simp
  have d: "decimate [10, 11, 12, 13, 14, 15, 16 :: nat] 3 = Inr [10, 13]"
    by (simp add: decimate_def truncate_multiple_def slice_to_def slice_step_def)
  show ?thesis
    using h d decimate_select[OF h, of "[10, 11, 12, 13, 14, 15, 16 :: nat]"] by simp
qed

section \<open>FM demodulator: proofs\<close>

lemma val_simps:
  "val (d_neg a) = - val a" "val (d_mult a b) = val a * val b"
  "val (d_add a b) = val a + val b" "val (d_sub a b) = val a - val b"
  by (simp_all add: d_neg_def d_mult_def d_add_def d_sub_def)

lemma signbit_Double: "signbit (Double v s) = (if v = 0 then s else v < 0)"
  by (simp add: signbit_def)

lemma to_complex_times: "to_complex (a * b) = to_complex a * to_complex b"
  by (simp add: to_complex_def times_cdouble_def val_simps complex_eq_iff)

lemma to_complex_conj: "to_complex (np_conj z) = cnj (to_complex z)"
  by (simp add: to_complex_def np_conj_def val_simps complex_eq_iff)











lemma slice_to_butlast:
  "slice_to xs (int (length xs) - 1) = take (length xs - 1) xs"
  by (cases xs) (simp_all add: slice_to_def)

lemma rotated_eq:
  "rotated s = Inr (map (\<lambda>i. s ! Suc i * np_conj (s ! i)) [0..<length s - 1])"
proof -
  have len: "length (slice_from s 1) = length (map np_conj (take (length s - 1) s))"
    by (simp add: slice_from_def)
  have "map2 (*) (drop 1 s) (map np_conj (take (length s - 1) s))
        = map (\<lambda>i. s ! Suc i * np_conj (s ! i)) [0..<length s - 1]"
    by (rule nth_equalityI) simp_all
  then show ?thesis
    using len by (simp add: rotated_def np_multiply_def slice_to_butlast slice_from_def)
qed

lemma deltas_eq:
  "deltas s = Inr (map (\<lambda>i. angle (s ! Suc i * np_conj (s ! i))) [0..<length s - 1])"
  by (simp add: deltas_def rotated_eq comp_def)



lemma adjust_loop_eq:
  "i + length ds \<le> length adjusted \<Longrightarrow>
   adjust_loop i ds adjusted = take i adjusted @ map adjust ds @ drop (i + length ds) adjusted"
proof (induction i ds adjusted rule: adjust_loop.induct)
  case (1 i adjusted)
  then show ?case by simp
next
  case (2 i a rest adjusted)
  then have i: "i < length adjusted" by simp
  have "take (Suc i) (adjusted[i := adjust a]) = take i adjusted @ [adjust a]"
    using i by (simp add: take_Suc_conv_app_nth)
  with 2 show ?case by simp
qed

lemma adjusted_diffs_eq: "adjusted_diffs ds = map adjust ds"
  by (simp add: adjusted_diffs_def adjust_loop_eq)







lemma cplx_simps:
  "val (creal (cplx a b)) = a" "val (cimag (cplx a b)) = b"
  "signbit (creal (cplx a b)) = (a < 0)" "signbit (cimag (cplx a b)) = (b < 0)"
  "zero_sign (creal (cplx a b)) = False" "zero_sign (cimag (cplx a b)) = False"
  "to_complex (cplx a b) = Complex a b"
  by (auto simp: cplx_def signbit_def to_complex_def)




text \<open>
  C6. On an input of fewer than two samples the demodulator returns the empty
  sequence, not an error.
\<close>

theorem deltas_short_input:
  assumes "length s < 2"
  shows "deltas s = Inr []"
  using assms by (simp add: deltas_eq)

theorem deltas_short_input_witness:
  "length [cplx 3 4] < 2 \<and> deltas [cplx 3 4] = Inr []
   \<and> length ([] :: cdouble list) < 2 \<and> deltas [] = Inr []"
  using deltas_short_input[of "[cplx 3 4]"] deltas_short_input[of "[]"] by simp

text \<open>
  C10, as the code has it. The demodulator never fails, and where the product
  \<open>s[i+1] * conjugate(s[i])\<close> is zero its output is fixed by the sign bits of the
  product's two zeros: 0 when the real part is \<open>+0.0\<close>, \<open>\<pi>\<close> when the real part is
  \<open>-0.0\<close> and the imaginary part \<open>+0.0\<close>, \<open>-\<pi>\<close> when both are \<open>-0.0\<close>.
\<close>

theorem deltas_zero_product:
  "\<exists>out. deltas s = Inr out \<and> length out = length s - 1
      \<and> (\<forall>i < length s - 1.
            to_complex (s ! (i + 1) * np_conj (s ! i)) = 0 \<longrightarrow>
              (\<not> signbit (creal (s ! (i + 1) * np_conj (s ! i))) \<longrightarrow> out ! i = 0)
            \<and> (signbit (creal (s ! (i + 1) * np_conj (s ! i)))
                 \<and> \<not> signbit (cimag (s ! (i + 1) * np_conj (s ! i))) \<longrightarrow> out ! i = pi)
            \<and> (signbit (creal (s ! (i + 1) * np_conj (s ! i)))
                 \<and> signbit (cimag (s ! (i + 1) * np_conj (s ! i))) \<longrightarrow> out ! i = - pi))"
proof -
  let ?out = "map (\<lambda>i. angle (s ! Suc i * np_conj (s ! i))) [0..<length s - 1]"
  have 1: "deltas s = Inr ?out" by (rule deltas_eq)
  have 2: "length ?out = length s - 1" by simp
  have 3: "(\<not> signbit (creal z) \<longrightarrow> angle z = 0)
      \<and> (signbit (creal z) \<and> \<not> signbit (cimag z) \<longrightarrow> angle z = pi)
      \<and> (signbit (creal z) \<and> signbit (cimag z) \<longrightarrow> angle z = - pi)"
    if "to_complex z = 0" for z
  proof -
    have "val (creal z) = 0" "val (cimag z) = 0"
      using that by (simp_all add: to_complex_def complex_eq_iff)
    then show ?thesis by (simp add: angle_def arctan2_def)
  qed
  show ?thesis using 1 2 3 by simp
qed

theorem deltas_zero_product_witness:
  "to_complex (cplx 1 1 * np_conj (cplx 0 0)) = 0
   \<and> \<not> signbit (creal (cplx 1 1 * np_conj (cplx 0 0)))
   \<and> deltas [cplx 0 0, cplx 1 1] = Inr [0]"
proof -
  have z: "to_complex (cplx 1 1 * np_conj (cplx 0 0)) = 0"
    by (simp add: to_complex_times to_complex_conj cplx_simps Complex_eq_0)
  have s: "\<not> signbit (creal (cplx 1 1 * np_conj (cplx 0 0)))"
    by (simp add: times_cdouble_def np_conj_def cplx_simps signbit_def
        d_sub_def d_add_def d_mult_def d_neg_def)
  obtain out where o: "deltas [cplx 0 0, cplx 1 1] = Inr out" "length out = 1"
    and all: "\<forall>i < length [cplx 0 0, cplx 1 1] - 1.
            to_complex ([cplx 0 0, cplx 1 1] ! (i + 1) * np_conj ([cplx 0 0, cplx 1 1] ! i)) = 0 \<longrightarrow>
              (\<not> signbit (creal ([cplx 0 0, cplx 1 1] ! (i + 1) * np_conj ([cplx 0 0, cplx 1 1] ! i)))
                \<longrightarrow> out ! i = 0)"
    using deltas_zero_product[of "[cplx 0 0, cplx 1 1]"] by auto
  have "out ! 0 = 0" using all z s by simp
  with o have "out = [0]" by (cases out) simp_all
  with o z s show ?thesis by simp
qed

text \<open>As the specification words C10 it fails for the samples \<open>0j\<close>, \<open>-1 - 1j\<close>:
  the product is \<open>-0.0 + 0.0j\<close> and its angle is \<open>\<pi>\<close>, not 0.\<close>

theorem deltas_zero_product_counterexample:
  "to_complex (cplx (- 1) (- 1) * np_conj (cplx 0 0)) = 0
   \<and> deltas [cplx 0 0, cplx (- 1) (- 1)] = Inr [pi] \<and> pi \<noteq> (0::real)"
proof -
  have z: "to_complex (cplx (- 1) (- 1) * np_conj (cplx 0 0)) = 0"
    by (simp add: to_complex_times to_complex_conj cplx_simps Complex_eq_0)
  have "deltas [cplx 0 0, cplx (- 1) (- 1)] = Inr [pi]"
    by (simp add: deltas_eq angle_def arctan2_def times_cdouble_def np_conj_def val_simps
        cplx_simps signbit_def d_sub_def d_add_def d_mult_def d_neg_def)
  with z show ?thesis by simp
qed

section \<open>Phase correction: proofs\<close>



text \<open>
  C5, as the code has it. For phase differences in \<open>(-2\<pi>, 2\<pi>)\<close> the corrected
  sequence has the same length and every element lies in the closed interval
  \<open>[-\<pi>, \<pi>]\<close>: an element above \<open>\<pi>\<close> has \<open>2\<pi>\<close> subtracted, one below \<open>-\<pi>\<close> has
  \<open>2\<pi>\<close> added, all others (also \<open>-\<pi>\<close> itself) are unchanged.
\<close>

theorem adjusted_diffs_range:
  assumes "\<forall>d \<in> set ds. - (2 * pi) < d \<and> d < 2 * pi"
  shows "length (adjusted_diffs ds) = length ds
     \<and> (\<forall>i < length ds.
           - pi \<le> adjusted_diffs ds ! i \<and> adjusted_diffs ds ! i \<le> pi
         \<and> (ds ! i > pi \<longrightarrow> adjusted_diffs ds ! i = ds ! i - 2 * pi)
         \<and> (ds ! i < - pi \<longrightarrow> adjusted_diffs ds ! i = ds ! i + 2 * pi)
         \<and> (- pi \<le> ds ! i \<and> ds ! i \<le> pi \<longrightarrow> adjusted_diffs ds ! i = ds ! i))"
proof -
  have "- pi \<le> adjust d \<and> adjust d \<le> pi
      \<and> (d > pi \<longrightarrow> adjust d = d - 2 * pi)
      \<and> (d < - pi \<longrightarrow> adjust d = d + 2 * pi)
      \<and> (- pi \<le> d \<and> d \<le> pi \<longrightarrow> adjust d = d)" if "- (2 * pi) < d" "d < 2 * pi" for d
    using that pi_gt_zero unfolding adjust_def by auto
  then show ?thesis using assms by (simp add: adjusted_diffs_eq)
qed

theorem adjusted_diffs_range_witness:
  "- (2 * pi) < 3 * pi / 2 \<and> 3 * pi / 2 < 2 * pi \<and> - (2 * pi) < - pi \<and> - pi < 2 * pi
   \<and> - (2 * pi) < (0::real) \<and> (0::real) < 2 * pi
   \<and> length (adjusted_diffs [3 * pi / 2, - pi, 0]) = 3
   \<and> adjusted_diffs [3 * pi / 2, - pi, 0] ! 0 = - (pi / 2)
   \<and> adjusted_diffs [3 * pi / 2, - pi, 0] ! 1 = - pi
   \<and> adjusted_diffs [3 * pi / 2, - pi, 0] ! 2 = 0"
proof -
  have h: "\<forall>d \<in> set [3 * pi / 2, - pi, 0]. - (2 * pi) < d \<and> d < 2 * pi"
    using pi_gt_zero by simp
  show ?thesis
    using h adjusted_diffs_range[OF h] pi_gt_zero by (simp add: nth_Cons')
qed

text \<open>As the specification words C5 it fails at the difference \<open>0 - \<pi>\<close> of the angles of
  \<open>1\<close> and \<open>-1\<close>: it stays \<open>-\<pi>\<close>, outside \<open>(-\<pi>, \<pi>]\<close>.\<close>

theorem adjusted_diffs_range_counterexample:
  "angle (cplx 1 0) = 0 \<and> angle (cplx (- 1) 0) = pi
   \<and> adjusted_diffs [angle (cplx 1 0) - angle (cplx (- 1) 0)] = [- pi]
   \<and> \<not> (- pi < adjusted_diffs [angle (cplx 1 0) - angle (cplx (- 1) 0)] ! 0)"
  by (simp add: angle_def arctan2_def adjusted_diffs_def adjust_def cplx_simps signbit_def)






end
